theory Spec2Isabelle
  imports Main "HOL-Library.Sublist"
begin

section \<open>Python values used by \<open>openks/models/paddle/ner.py\<close>\<close>

text \<open>
  A Python \<open>str\<close> is a sequence of Unicode code points, and iterating over it yields
  one-code-point strings. A code point is a natural number here, so that the Chinese
  characters of the data set are single elements, as they are in Python.
\<close>

type_synonym codepoint = nat
type_synonym pystr = "codepoint list"

definition ustr :: "string \<Rightarrow> pystr" where
  "ustr s = map of_char s"

text \<open>The exceptions that the two functions can raise through indexing and lookup.\<close>

datatype error = KeyError | IndexError

definition rbind :: "error + 'a \<Rightarrow> ('a \<Rightarrow> error + 'b) \<Rightarrow> error + 'b" where
  "rbind r f = (case r of Inl e \<Rightarrow> Inl e | Inr x \<Rightarrow> f x)"

text \<open>\<open>d[k]\<close> on a dict, and \<open>xs[i]\<close> on a list with a non-negative index.\<close>

definition dict_get :: "('k \<rightharpoonup> 'v) \<Rightarrow> 'k \<Rightarrow> error + 'v" where
  "dict_get d k = (case d k of None \<Rightarrow> Inl KeyError | Some v \<Rightarrow> Inr v)"

definition list_get :: "'a list \<Rightarrow> nat \<Rightarrow> error + 'a" where
  "list_get xs i = (if i < length xs then Inr (xs ! i) else Inl IndexError)"

text \<open>
  A slice bound: a negative bound counts from the end, and every bound is clamped to
  the length. \<open>xs[:k]\<close> and \<open>xs[i:j]\<close> never raise.
\<close>

definition slice_bound :: "nat \<Rightarrow> int \<Rightarrow> nat" where
  "slice_bound n i = (if i < 0 then nat (int n + i) else min n (nat i))"

definition py_slice_to :: "'a list \<Rightarrow> int \<Rightarrow> 'a list" where
  "py_slice_to xs k = take (slice_bound (length xs) k) xs"

definition py_slice :: "'a list \<Rightarrow> int \<Rightarrow> int \<Rightarrow> 'a list" where
  "py_slice xs i j =
     drop (slice_bound (length xs) i) (take (slice_bound (length xs) j) xs)"

text \<open>\<open>xs * k\<close>: the empty list when \<open>k\<close> is zero or negative.\<close>

definition py_repeat :: "'a list \<Rightarrow> int \<Rightarrow> 'a list" where
  "py_repeat xs k = concat (replicate (nat k) xs)"

text \<open>\<open>t.startswith(p)\<close> and \<open>t.split(sep)\<close> for a separator of one character.\<close>

definition startswith :: "pystr \<Rightarrow> pystr \<Rightarrow> bool" where
  "startswith t p = (take (length p) t = p)"

fun split_sep :: "codepoint \<Rightarrow> pystr \<Rightarrow> pystr list" where
  "split_sep sep [] = [[]]"
| "split_sep sep (c # cs) =
     (if c = sep then [] # split_sep sep cs
      else (c # hd (split_sep sep cs)) # tl (split_sep sep cs))"

text \<open>A list comprehension whose element expression may raise.\<close>

fun map_result :: "('a \<Rightarrow> error + 'b) \<Rightarrow> 'a list \<Rightarrow> error + 'b list" where
  "map_result f [] = Inr []"
| "map_result f (x # xs) =
     rbind (f x) (\<lambda>y. rbind (map_result f xs) (\<lambda>ys. Inr (y # ys)))"

section \<open>The data model\<close>

record example =
  tokens :: "pystr list"
  labels :: "int list"

text \<open>
  What the tokenizer returns (with \<open>return_length=True\<close>), and the same dict once the
  key \<open>labels\<close> has been stored in it.
\<close>

record encoding =
  input_ids :: "int list"
  token_type_ids :: "int list"
  seq_len :: int

record tokenized_input = encoding +
  aligned_labels :: "int list"

section \<open>\<open>tokenize_and_align_labels\<close>\<close>

text \<open>
  Lines 29 to 34, on the label list, the number of entries of \<open>input_ids\<close> and the
  sentinel label.
\<close>

definition align_labels :: "int list \<Rightarrow> nat \<Rightarrow> int \<Rightarrow> int list" where
  "align_labels labels0 subtoken_count no_entity_id =
     (let labels1 =
            (if int subtoken_count - 2 < int (length labels0)
             then py_slice_to labels0 (int subtoken_count - 2)
             else labels0);
          out = [no_entity_id] @ labels1 @ [no_entity_id]
      in out @ py_repeat [no_entity_id] (int subtoken_count - int (length out)))"

text \<open>
  The tokenizer is a collaborator of the function: it is a parameter, called on the
  tokens and the maximal length.
\<close>

definition tokenize_and_align_labels ::
  "example \<Rightarrow> (pystr list \<Rightarrow> int \<Rightarrow> encoding) \<Rightarrow> int \<Rightarrow> int \<Rightarrow> tokenized_input" where
  "tokenize_and_align_labels ex tokenizer no_entity_id max_seq_len =
     (let enc = tokenizer (tokens ex) max_seq_len
      in \<lparr> input_ids = input_ids enc,
           token_type_ids = token_type_ids enc,
           seq_len = seq_len enc,
           aligned_labels =
             align_labels (labels ex) (length (input_ids enc)) no_entity_id \<rparr>)"

section \<open>\<open>parse_decodes\<close>\<close>

text \<open>
  The inner loop of lines 48 to 60 over \<open>zip(sent, tags)\<close>. The state is
  \<open>(sent_out, tags_out, words)\<close>; \<open>s\<close> is one character of the sentence.
\<close>

fun walk ::
  "(codepoint \<times> pystr) list \<Rightarrow> pystr list \<times> pystr list \<times> pystr \<Rightarrow>
   error + (pystr list \<times> pystr list \<times> pystr)" where
  "walk [] st = Inr st"
| "walk ((s, t) # rest) (sent_out, tags_out, words) =
     (if startswith t (ustr ''B-'') \<or> t = ustr ''O'' then
        (let sent_out' = (if length words \<noteq> 0 then sent_out @ [words] else sent_out)
         in if startswith t (ustr ''B-'') then
              rbind (list_get (split_sep (of_char CHR ''-'') t) 1)
                (\<lambda>ty. walk rest (sent_out', tags_out @ [ty], [s]))
            else walk rest (sent_out', tags_out @ [t], [s]))
      else walk rest (sent_out, tags_out, words @ [s]))"

text \<open>
  Lines 45 to 62 for one example: the loop from the empty state, then the fix-up that
  flushes the accumulator when a type was recorded without its span.
\<close>

definition decode_lists :: "pystr \<Rightarrow> pystr list \<Rightarrow> error + (pystr list \<times> pystr list)" where
  "decode_lists sent tags =
     rbind (walk (zip sent tags) ([], [], []))
       (\<lambda>(sent_out, tags_out, words).
          Inr (if length sent_out < length tags_out then sent_out @ [words] else sent_out,
               tags_out))"

text \<open>Line 44: the tags of one decoding frame.\<close>

definition frame_tags :: "(int \<rightharpoonup> pystr) \<Rightarrow> int list \<Rightarrow> int \<Rightarrow> error + pystr list" where
  "frame_tags id2label d end = map_result (dict_get id2label) (py_slice d 1 end)"

text \<open>Lines 43 to 62 for the example at position \<open>idx\<close> with valid length \<open>end\<close>.\<close>

definition decode_example ::
  "example list \<Rightarrow> (int \<rightharpoonup> pystr) \<Rightarrow> int list list \<Rightarrow> nat \<Rightarrow> int \<Rightarrow>
   error + (pystr list \<times> pystr list)" where
  "decode_example input_words id2label decodes idx end =
     rbind (list_get input_words idx) (\<lambda>w.
     rbind (list_get decodes idx) (\<lambda>d.
     rbind (frame_tags id2label d end) (\<lambda>tags.
       decode_lists (concat (tokens w)) tags)))"

text \<open>
  The outer loop over \<open>enumerate(lens)\<close>. Each example yields the pairs
  \<open>zip(sent_out, tags_out)\<close>; the first exception ends the whole call.
\<close>

fun parse_loop ::
  "example list \<Rightarrow> (int \<rightharpoonup> pystr) \<Rightarrow> int list list \<Rightarrow> nat \<Rightarrow> int list \<Rightarrow>
   error + (pystr \<times> pystr) list list" where
  "parse_loop input_words id2label decodes idx [] = Inr []"
| "parse_loop input_words id2label decodes idx (end # lens) =
     rbind (decode_example input_words id2label decodes idx end)
       (\<lambda>(sent_out, tags_out).
          rbind (parse_loop input_words id2label decodes (Suc idx) lens)
            (\<lambda>outputs. Inr (zip sent_out tags_out # outputs)))"

text \<open>
  The whole function: both arguments are flattened over the batches, and each pair is
  rendered by Python's \<open>str\<close> of a tuple, a parameter here, before the join.
\<close>

definition parse_decodes ::
  "(pystr \<times> pystr \<Rightarrow> pystr) \<Rightarrow> example list \<Rightarrow> (int \<rightharpoonup> pystr) \<Rightarrow>
   int list list list \<Rightarrow> int list list \<Rightarrow> error + pystr list" where
  "parse_decodes str_of_pair input_words id2label decodes lens =
     rbind (parse_loop input_words id2label (concat decodes) 0 (concat lens))
       (\<lambda>outputs. Inr (map (\<lambda>pairs. concat (map str_of_pair pairs)) outputs))"

section \<open>The two functions on a store of list objects\<close>

text \<open>
  Python lists are objects: a name holds a reference, \<open>append\<close> and \<open>+=\<close> change the
  object in place, and slicing, \<open>+\<close> and a comprehension build a new one. The store
  holds the list objects, lists of integers and lists of strings; an address is a
  position in it and a new object is put at the end. Strings and integers are values.
\<close>

type_synonym addr = nat

record store =
  ints :: "int list list"
  strs :: "pystr list list"

definition new_ints :: "store \<Rightarrow> int list \<Rightarrow> addr \<times> store" where
  "new_ints st xs = (length (ints st), st\<lparr>ints := ints st @ [xs]\<rparr>)"

definition new_strs :: "store \<Rightarrow> pystr list \<Rightarrow> addr \<times> store" where
  "new_strs st xs = (length (strs st), st\<lparr>strs := strs st @ [xs]\<rparr>)"

definition extend_ints :: "store \<Rightarrow> addr \<Rightarrow> int list \<Rightarrow> store" where
  "extend_ints st a ys = st\<lparr>ints := (ints st)[a := ints st ! a @ ys]\<rparr>"

definition append_strs :: "store \<Rightarrow> addr \<Rightarrow> pystr \<Rightarrow> store" where
  "append_strs st a y = st\<lparr>strs := (strs st)[a := strs st ! a @ [y]]\<rparr>"

text \<open>An example whose two lists are objects in the store, and the values it holds.\<close>

record example_ref =
  tokens_at :: addr
  labels_at :: addr

definition example_of :: "store \<Rightarrow> example_ref \<Rightarrow> example" where
  "example_of st w = \<lparr> tokens = strs st ! tokens_at w, labels = ints st ! labels_at w \<rparr>"

text \<open>
  \<open>tokenize_and_align_labels\<close> on the store. Line 21 copies the reference; line 31
  builds a new list; so does line 32, whose list the dict of the tokenizer then holds;
  line 33 extends that list in place. The function returns the dict, that is the
  encoding and the reference to its labels.
\<close>

definition tokenize_and_align_labels_store ::
  "store \<Rightarrow> example_ref \<Rightarrow> (pystr list \<Rightarrow> int \<Rightarrow> encoding) \<Rightarrow> int \<Rightarrow> int \<Rightarrow>
   (encoding \<times> addr) \<times> store" where
  "tokenize_and_align_labels_store st ex tokenizer no_entity_id max_seq_len =
     (let labels0 = labels_at ex;
          enc = tokenizer (strs st ! tokens_at ex) max_seq_len;
          n = int (length (input_ids enc));
          (labels1, st1) =
            (if n - 2 < int (length (ints st ! labels0))
             then new_ints st (py_slice_to (ints st ! labels0) (n - 2))
             else (labels0, st));
          (out, st2) = new_ints st1 ([no_entity_id] @ ints st1 ! labels1 @ [no_entity_id]);
          st3 = extend_ints st2 out
                  (py_repeat [no_entity_id] (n - int (length (ints st2 ! out))))
      in ((enc, out), st3))"

text \<open>
  \<open>parse_decodes\<close> on the store. An exception leaves the store as it is at that
  point. \<open>sent_out\<close>, \<open>tags_out\<close> and \<open>outputs\<close> are new lists that the loops append
  to; the sequences of \<open>decodes\<close> and the token lists are objects that are read.
\<close>

type_synonym 'a outcome = "(error + 'a) \<times> store"

definition sbind :: "'a outcome \<Rightarrow> ('a \<Rightarrow> store \<Rightarrow> 'b outcome) \<Rightarrow> 'b outcome" where
  "sbind r f = (case fst r of Inl e \<Rightarrow> (Inl e, snd r) | Inr x \<Rightarrow> f x (snd r))"

fun walk_store ::
  "(codepoint \<times> pystr) list \<Rightarrow> addr \<Rightarrow> addr \<Rightarrow> pystr \<Rightarrow> store \<Rightarrow> pystr outcome" where
  "walk_store [] sent_out tags_out words st = (Inr words, st)"
| "walk_store ((s, t) # rest) sent_out tags_out words st =
     (if startswith t (ustr ''B-'') \<or> t = ustr ''O'' then
        (let st1 = (if length words \<noteq> 0 then append_strs st sent_out words else st)
         in if startswith t (ustr ''B-'') then
              sbind (list_get (split_sep (of_char CHR ''-'') t) 1, st1)
                (\<lambda>ty st2. walk_store rest sent_out tags_out [s] (append_strs st2 tags_out ty))
            else walk_store rest sent_out tags_out [s] (append_strs st1 tags_out t))
      else walk_store rest sent_out tags_out (words @ [s]) st)"

definition decode_example_store ::
  "example_ref list \<Rightarrow> (int \<rightharpoonup> pystr) \<Rightarrow> addr list \<Rightarrow> nat \<Rightarrow> int \<Rightarrow> store \<Rightarrow>
   (addr \<times> addr) outcome" where
  "decode_example_store input_words id2label decodes idx end st =
     sbind (list_get input_words idx, st) (\<lambda>w st.
     sbind (list_get decodes idx, st) (\<lambda>d st.
     sbind (frame_tags id2label (ints st ! d) end, st) (\<lambda>tags st.
       (let sent = concat (strs st ! tokens_at w);
            (sent_out, st1) = new_strs st [];
            (tags_out, st2) = new_strs st1 []
        in sbind (walk_store (zip sent tags) sent_out tags_out [] st2) (\<lambda>words st3.
             (Inr (sent_out, tags_out),
              if length (strs st3 ! sent_out) < length (strs st3 ! tags_out)
              then append_strs st3 sent_out words else st3))))))"

fun parse_loop_store ::
  "(pystr \<times> pystr \<Rightarrow> pystr) \<Rightarrow> example_ref list \<Rightarrow> (int \<rightharpoonup> pystr) \<Rightarrow> addr list \<Rightarrow>
   addr \<Rightarrow> nat \<Rightarrow> int list \<Rightarrow> store \<Rightarrow> unit outcome" where
  "parse_loop_store str_of_pair input_words id2label decodes outputs idx [] st = (Inr (), st)"
| "parse_loop_store str_of_pair input_words id2label decodes outputs idx (end # lens) st =
     sbind (decode_example_store input_words id2label decodes idx end st)
       (\<lambda>(sent_out, tags_out) st1.
          parse_loop_store str_of_pair input_words id2label decodes outputs (Suc idx) lens
            (append_strs st1 outputs
               (concat (map str_of_pair (zip (strs st1 ! sent_out) (strs st1 ! tags_out))))))"

definition parse_decodes_store ::
  "(pystr \<times> pystr \<Rightarrow> pystr) \<Rightarrow> example_ref list \<Rightarrow> (int \<rightharpoonup> pystr) \<Rightarrow>
   addr list list \<Rightarrow> int list list \<Rightarrow> store \<Rightarrow> addr outcome" where
  "parse_decodes_store str_of_pair input_words id2label decodes lens st =
     (let (outputs, st1) = new_strs st []
      in sbind (parse_loop_store str_of_pair input_words id2label (concat decodes) outputs 0
                  (concat lens) st1)
           (\<lambda>u st2. (Inr outputs, st2)))"

section \<open>Predicates and inputs used in the statements\<close>

text \<open>
  A tag opens a span when the loop takes its first branch. The type recorded for it is
  what \<open>t.split('-')[1]\<close> returns on a \<open>B-\<close> tag, and the tag itself otherwise.
\<close>

definition opens_span :: "pystr \<Rightarrow> bool" where
  "opens_span t = (startswith t (ustr ''B-'') \<or> t = ustr ''O'')"

definition recorded_type :: "pystr \<Rightarrow> pystr" where
  "recorded_type t =
     (if startswith t (ustr ''B-'')
      then takeWhile (\<lambda>c. c \<noteq> of_char CHR ''-'') (drop 2 t)
      else t)"

text \<open>
  A well-formed BIO sequence: every tag is \<open>O\<close>, \<open>B-X\<close> or \<open>I-X\<close>, and an \<open>I-X\<close> follows
  a \<open>B-X\<close> or an \<open>I-X\<close> of the same type, so that the sequence does not begin with
  \<open>I-\<close>. The first argument of \<open>bio_ok\<close> is the tag before.
\<close>

fun bio_ok :: "pystr \<Rightarrow> pystr list \<Rightarrow> bool" where
  "bio_ok prev [] = True"
| "bio_ok prev (t # ts) =
     ((t = ustr ''O'' \<or> startswith t (ustr ''B-'') \<or>
       (startswith t (ustr ''I-'') \<and>
        (startswith prev (ustr ''B-'') \<or> startswith prev (ustr ''I-'')) \<and>
        drop 2 prev = drop 2 t)) \<and>
      bio_ok t ts)"

definition well_formed_bio :: "pystr list \<Rightarrow> bool" where
  "well_formed_bio tags = bio_ok (ustr ''O'') tags"

text \<open>
  Inputs for the concrete statements: a tokenizer that returns a fixed number of
  sub-tokens, the label list of the MSRA data set as \<open>id2label\<close>, and the sentence of
  five characters U+5317, U+4EAC, U+6B22, U+8FCE, U+4F60.
\<close>

definition fixed_tokenizer :: "nat \<Rightarrow> pystr list \<Rightarrow> int \<Rightarrow> encoding" where
  "fixed_tokenizer n toks max_seq_len =
     \<lparr> input_ids = replicate n 0, token_type_ids = replicate n 0, seq_len = int n \<rparr>"

definition msra_id2label :: "int \<rightharpoonup> pystr" where
  "msra_id2label =
     map_of [(0, ustr ''B-PER''), (1, ustr ''I-PER''), (2, ustr ''B-ORG''),
             (3, ustr ''I-ORG''), (4, ustr ''B-LOC''), (5, ustr ''I-LOC''),
             (6, ustr ''O'')]"

definition beijing :: example where
  "beijing = \<lparr> tokens = [[21271], [20140], [27426], [36814], [20320]], labels = [4, 5, 6, 6, 6] \<rparr>"

text \<open>A store with one sequence of decoded ids, one label list and one token list.\<close>

definition store0 :: store where
  "store0 = \<lparr> ints = [[6, 4, 5, 6], [0, 1]], strs = [[[21271], [20140]]] \<rparr>"

definition example0 :: example_ref where
  "example0 = \<lparr> tokens_at = 0, labels_at = 1 \<rparr>"

section \<open>The label aligner\<close>

lemma replicate_numeral: "replicate (numeral k) x = x # replicate (pred_numeral k) x"
  by (simp add: numeral_eq_Suc)

lemma py_repeat_single: "py_repeat [x] k = replicate (nat k) x"
  by (induction "nat k" arbitrary: k) (simp_all add: py_repeat_def)

lemma align_labels_fits:
  assumes "2 \<le> n" and "length ls \<le> n - 2"
  shows "align_labels ls n no = no # ls @ replicate (n - 1 - length ls) no"
proof -
  have keep: "\<not> int n - 2 < int (length ls)"
    using assms by linarith
  have pad: "nat (int n - int (Suc (Suc (length ls)))) = n - 2 - length ls"
    by linarith
  have "n - 1 - length ls = Suc (n - 2 - length ls)"
    using assms by linarith
  then show ?thesis
    using keep pad by (simp add: align_labels_def py_repeat_single replicate_app_Cons_same)
qed

lemma align_labels_truncates:
  assumes "2 \<le> n" and "n - 2 < length ls"
  shows "align_labels ls n no = no # take (n - 2) ls @ [no]"
proof -
  have cut: "int n - 2 < int (length ls)"
    using assms by linarith
  have bound: "slice_bound (length ls) (int n - 2) = n - 2"
    using assms by (simp add: slice_bound_def)
  show ?thesis
    using cut assms by (simp add: align_labels_def py_slice_to_def bound py_repeat_single Let_def)
qed

lemma align_labels_degenerate:
  assumes "n < 2"
  shows "align_labels ls n no = no # take (length ls - (2 - n)) ls @ [no]"
proof -
  have cut: "int n - 2 < int (length ls)"
    using assms by linarith
  have bound: "slice_bound (length ls) (int n - 2) = length ls - (2 - n)"
    using assms by (simp add: slice_bound_def)
  show ?thesis
    using cut assms by (simp add: align_labels_def py_slice_to_def bound py_repeat_single Let_def)
qed

lemma aligned_labels_eq:
  "aligned_labels (tokenize_and_align_labels ex tokenizer no_entity_id max_seq_len) =
   align_labels (labels ex) (length (input_ids (tokenizer (tokens ex) max_seq_len))) no_entity_id"
  by (simp add: tokenize_and_align_labels_def Let_def)

text \<open>
  Claim C2. When the tokenizer returns at least two sub-tokens and the labels fit
  between the two boundary positions, the aligned labels are the sentinel, then the
  input labels in order, then sentinels up to the number of sub-tokens: exactly
  \<open>subtoken_count\<close> entries, the first and the last of them the sentinel.
\<close>

theorem align_within_capacity:
  assumes "subtoken_count = length (input_ids (tokenizer (tokens ex) max_seq_len))"
    and "2 \<le> subtoken_count"
    and "length (labels ex) \<le> subtoken_count - 2"
  shows "aligned_labels (tokenize_and_align_labels ex tokenizer no_entity_id max_seq_len) =
           no_entity_id # labels ex @
             replicate (subtoken_count - 1 - length (labels ex)) no_entity_id
         \<and> length (aligned_labels
             (tokenize_and_align_labels ex tokenizer no_entity_id max_seq_len)) = subtoken_count
         \<and> last (aligned_labels
             (tokenize_and_align_labels ex tokenizer no_entity_id max_seq_len)) = no_entity_id"
proof -
  have eq: "aligned_labels (tokenize_and_align_labels ex tokenizer no_entity_id max_seq_len) =
      no_entity_id # labels ex @ replicate (subtoken_count - 1 - length (labels ex)) no_entity_id"
    using assms by (simp add: aligned_labels_eq align_labels_fits)
  have room: "0 < subtoken_count - 1 - length (labels ex)"
    using assms by linarith
  have len: "Suc (length (labels ex) + (subtoken_count - 1 - length (labels ex))) = subtoken_count"
    using assms by linarith
  show ?thesis
    using room len by (simp add: eq)
qed

theorem align_within_capacity_witness:
  "(2::nat) \<le> 8 \<and> length [4, 5, 6 :: int] \<le> 8 - 2 \<and>
   aligned_labels (tokenize_and_align_labels \<lparr> tokens = [[21271], [20140], [27426]],
       labels = [4, 5, 6] \<rparr> (fixed_tokenizer 8) 6 512) = [6, 4, 5, 6, 6, 6, 6, 6]"
  using align_within_capacity [of 8 "fixed_tokenizer 8"
      "\<lparr> tokens = [[21271], [20140], [27426]], labels = [4, 5, 6] \<rparr>" 512 6]
  by (simp add: fixed_tokenizer_def replicate_numeral)

text \<open>
  Claim C4. The tokenizer puts the two boundary tokens around the sub-tokens (line 29),
  so \<open>subtoken_count\<close> is at least two. When there are more labels than the
  \<open>subtoken_count - 2\<close> positions between the boundaries, only the first
  \<open>subtoken_count - 2\<close> labels are kept, between two sentinels, and the output has
  exactly \<open>subtoken_count\<close> entries. With ten labels and eight sub-tokens the first six
  labels are kept.
\<close>

theorem align_truncates_labels:
  assumes "subtoken_count = length (input_ids (tokenizer (tokens ex) max_seq_len))"
    and "2 \<le> subtoken_count"
    and "subtoken_count - 2 < length (labels ex)"
  shows "aligned_labels (tokenize_and_align_labels ex tokenizer no_entity_id max_seq_len) =
           no_entity_id # take (subtoken_count - 2) (labels ex) @ [no_entity_id]
         \<and> length (aligned_labels
             (tokenize_and_align_labels ex tokenizer no_entity_id max_seq_len)) = subtoken_count"
proof -
  have eq: "aligned_labels (tokenize_and_align_labels ex tokenizer no_entity_id max_seq_len) =
      no_entity_id # take (subtoken_count - 2) (labels ex) @ [no_entity_id]"
    using assms by (simp add: aligned_labels_eq align_labels_truncates)
  have "min (length (labels ex)) (subtoken_count - 2) = subtoken_count - 2"
    using assms by linarith
  then have "Suc (Suc (min (length (labels ex)) (subtoken_count - 2))) = subtoken_count"
    using assms by linarith
  then show ?thesis
    by (simp add: eq)
qed

theorem align_truncates_labels_witness:
  "(2::nat) \<le> 8 \<and> (8::nat) - 2 < length [4, 5, 5, 6, 0, 1, 6, 6, 2, 3 :: int] \<and>
   length [4, 5, 5, 6, 0, 1, 6, 6, 2, 3 :: int] = 10 \<and>
   aligned_labels (tokenize_and_align_labels
       \<lparr> tokens = [], labels = [4, 5, 5, 6, 0, 1, 6, 6, 2, 3] \<rparr> (fixed_tokenizer 8) 6 512) =
     [6, 4, 5, 5, 6, 0, 1, 6] \<and>
   length (aligned_labels (tokenize_and_align_labels
       \<lparr> tokens = [], labels = [4, 5, 5, 6, 0, 1, 6, 6, 2, 3] \<rparr> (fixed_tokenizer 8) 6 512)) = 8"
  using align_truncates_labels [of 8 "fixed_tokenizer 8"
      "\<lparr> tokens = [], labels = [4, 5, 5, 6, 0, 1, 6, 6, 2, 3] \<rparr>" 512 6]
  by (simp add: fixed_tokenizer_def replicate_numeral)

text \<open>
  Claim C8. The aligner returns on every input; no line of it can raise. With fewer
  than two sub-tokens the bound of the slice is negative, the last \<open>2 - subtoken_count\<close>
  labels are dropped and the result is the rest between two sentinels, without padding.
\<close>

theorem align_returns_on_every_input:
  assumes "subtoken_count = length (input_ids (tokenizer (tokens ex) max_seq_len))"
  shows "aligned_labels (tokenize_and_align_labels ex tokenizer no_entity_id max_seq_len) =
           (if subtoken_count < 2
            then no_entity_id #
                 take (length (labels ex) - (2 - subtoken_count)) (labels ex) @ [no_entity_id]
            else if subtoken_count - 2 < length (labels ex)
            then no_entity_id # take (subtoken_count - 2) (labels ex) @ [no_entity_id]
            else no_entity_id # labels ex @
                 replicate (subtoken_count - 1 - length (labels ex)) no_entity_id)"
proof (cases "subtoken_count < 2")
  case True
  then show ?thesis
    using assms by (simp add: aligned_labels_eq align_labels_degenerate)
next
  case False
  then have two: "2 \<le> subtoken_count" by simp
  show ?thesis
  proof (cases "subtoken_count - 2 < length (labels ex)")
    case True
    then show ?thesis
      using two assms by (simp add: aligned_labels_eq align_labels_truncates)
  next
    case False
    then have "length (labels ex) \<le> subtoken_count - 2" by simp
    then show ?thesis
      using two assms False by (simp add: aligned_labels_eq align_labels_fits)
  qed
qed

theorem align_returns_on_every_input_witness:
  "aligned_labels (tokenize_and_align_labels \<lparr> tokens = [[21271], [20140], [27426]],
       labels = [4, 5, 6] \<rparr> (fixed_tokenizer 1) 6 512) = [6, 4, 5, 6] \<and>
   aligned_labels (tokenize_and_align_labels \<lparr> tokens = [[21271], [20140], [27426]],
       labels = [4, 5, 6] \<rparr> (fixed_tokenizer 0) 6 512) = [6, 4, 6]"
  using align_returns_on_every_input [of 1 "fixed_tokenizer 1"
      "\<lparr> tokens = [[21271], [20140], [27426]], labels = [4, 5, 6] \<rparr>" 512 6]
    align_returns_on_every_input [of 0 "fixed_tokenizer 0"
      "\<lparr> tokens = [[21271], [20140], [27426]], labels = [4, 5, 6] \<rparr>" 512 6]
  by (simp add: fixed_tokenizer_def)

section \<open>The span decoder: one step, and the loop\<close>

lemma ustr_B: "ustr ''B-'' = [66, 45]" by (simp add: ustr_def)
lemma ustr_I: "ustr ''I-'' = [73, 45]" by (simp add: ustr_def)
lemma ustr_O: "ustr ''O'' = [79]" by (simp add: ustr_def)

lemma startswith2: "startswith t [a, b] \<longleftrightarrow> (\<exists>r. t = a # b # r)"
  by (cases t; cases "tl t") (auto simp: startswith_def)

lemma split_sep_nonempty: "split_sep sep t \<noteq> []"
  by (induction t) auto

lemma hd_split_sep: "hd (split_sep sep t) = takeWhile (\<lambda>c. c \<noteq> sep) t"
  by (induction t) auto

lemma b_tag_type:
  assumes "startswith t (ustr ''B-'')"
  shows "list_get (split_sep (of_char CHR ''-'') t) 1 = Inr (recorded_type t)"
proof -
  obtain r where t: "t = 66 # 45 # r"
    using assms by (auto simp: ustr_B startswith2)
  have "split_sep 45 r \<noteq> []"
    by (rule split_sep_nonempty)
  then have "0 < length (split_sep 45 r)"
    by simp
  then show ?thesis
    using assms by (simp add: t list_get_def recorded_type_def hd_split_sep hd_conv_nth [symmetric] split_sep_nonempty)
qed

lemma recorded_type_O: "\<not> startswith t (ustr ''B-'') \<Longrightarrow> recorded_type t = t"
  by (simp add: recorded_type_def)

lemma O_not_B: "\<not> startswith (ustr ''O'') (ustr ''B-'')"
  by (simp add: startswith_def ustr_def)

lemma walk_Cons:
  "walk ((s, t) # rest) (sent_out, tags_out, words) =
     (if opens_span t
      then walk rest ((if words = [] then sent_out else sent_out @ [words]),
                      tags_out @ [recorded_type t], [s])
      else walk rest (sent_out, tags_out, words @ [s]))"
proof (cases "startswith t (ustr ''B-'')")
  case True
  then show ?thesis
    using b_tag_type [OF True] by (simp add: opens_span_def rbind_def)
next
  case False
  then show ?thesis
    using O_not_B by (auto simp: opens_span_def recorded_type_O)
qed

declare walk.simps(2) [simp del]

lemma walk_step:
  assumes "walk ((s, t) # rest) (sent_out, tags_out, words) = Inr st'"
  shows "(opens_span t \<and>
          walk rest ((if words = [] then sent_out else sent_out @ [words]),
                     tags_out @ [recorded_type t], [s]) = Inr st') \<or>
         (\<not> opens_span t \<and> walk rest (sent_out, tags_out, words @ [s]) = Inr st')"
  using assms by (cases "opens_span t") (simp_all add: walk_Cons)

lemma walk_returns: "\<exists>st'. walk zs (sent_out, tags_out, words) = Inr st'"
proof (induction zs arbitrary: sent_out tags_out words)
  case Nil
  show ?case by simp
next
  case (Cons z zs)
  obtain s t where z: "z = (s, t)" by (cases z)
  show ?case
    unfolding z walk_Cons using Cons.IH by simp
qed

lemma walk_types:
  "walk zs (sent_out, tags_out, words) = Inr (sent_out', tags_out', words') \<Longrightarrow>
   tags_out' = tags_out @ map recorded_type (filter opens_span (map snd zs))"
proof (induction zs arbitrary: sent_out tags_out words)
  case Nil
  then show ?case by simp
next
  case (Cons z zs)
  obtain s t where z: "z = (s, t)" by (cases z)
  from walk_step [OF Cons.prems [unfolded z]] show ?case
  proof (elim disjE conjE)
    assume t: "opens_span t"
      and "walk zs ((if words = [] then sent_out else sent_out @ [words]),
             tags_out @ [recorded_type t], [s]) = Inr (sent_out', tags_out', words')"
    from Cons.IH [OF this(2)] t show ?thesis
      by (simp add: z)
  next
    assume t: "\<not> opens_span t"
      and "walk zs (sent_out, tags_out, words @ [s]) = Inr (sent_out', tags_out', words')"
    from Cons.IH [OF this(2)] t show ?thesis
      by (simp add: z)
  qed
qed

lemma walk_text:
  "walk zs (sent_out, tags_out, words) = Inr (sent_out', tags_out', words') \<Longrightarrow>
   concat sent_out' @ words' = concat sent_out @ words @ map fst zs"
proof (induction zs arbitrary: sent_out tags_out words)
  case Nil
  then show ?case by simp
next
  case (Cons z zs)
  obtain s t where z: "z = (s, t)" by (cases z)
  from walk_step [OF Cons.prems [unfolded z]] show ?case
  proof (elim disjE conjE)
    assume "walk zs ((if words = [] then sent_out else sent_out @ [words]),
             tags_out @ [recorded_type t], [s]) = Inr (sent_out', tags_out', words')"
    from Cons.IH [OF this] show ?thesis
      by (simp add: z)
  next
    assume "walk zs (sent_out, tags_out, words @ [s]) = Inr (sent_out', tags_out', words')"
    from Cons.IH [OF this] show ?thesis
      by (simp add: z)
  qed
qed

lemma walk_open:
  "walk zs (sent_out, tags_out, words) = Inr (sent_out', tags_out', words') \<Longrightarrow>
   words \<noteq> [] \<Longrightarrow>
   words' \<noteq> [] \<and> length sent_out' + length tags_out = length sent_out + length tags_out'"
proof (induction zs arbitrary: sent_out tags_out words)
  case Nil
  then show ?case by simp
next
  case (Cons z zs)
  obtain s t where z: "z = (s, t)" by (cases z)
  from walk_step [OF Cons.prems(1) [unfolded z]] show ?case
  proof (elim disjE conjE)
    assume "walk zs ((if words = [] then sent_out else sent_out @ [words]),
             tags_out @ [recorded_type t], [s]) = Inr (sent_out', tags_out', words')"
    from Cons.IH [OF this] Cons.prems(2) show ?thesis
      by simp
  next
    assume "walk zs (sent_out, tags_out, words @ [s]) = Inr (sent_out', tags_out', words')"
    from Cons.IH [OF this] show ?thesis
      by simp
  qed
qed

lemma decode_lists_empty:
  assumes "zip sent tags = []"
  shows "decode_lists sent tags = Inr ([], [])"
  unfolding decode_lists_def assms by (simp add: rbind_def)

lemma decode_lists_opened:
  assumes zs: "zip sent tags = (s, t) # rest" and t: "opens_span t"
  shows "\<exists>spans types. decode_lists sent tags = Inr (spans, types) \<and>
           concat spans = map fst (zip sent tags) \<and> length spans = length types"
proof -
  obtain sent_out tags_out words
    where w: "walk rest ([], [recorded_type t], [s]) = Inr (sent_out, tags_out, words)"
    using walk_returns [of rest "[]" "[recorded_type t]" "[s]"] by (metis prod_cases3)
  have run: "walk (zip sent tags) ([], [], []) = Inr (sent_out, tags_out, words)"
    using w t by (simp add: zs walk_Cons)
  have len: "Suc (length sent_out) = length tags_out"
    using walk_open [OF w] by simp
  have whole: "concat sent_out @ words = s # map fst rest"
    using walk_text [OF w] by simp
  have "decode_lists sent tags = Inr (sent_out @ [words], tags_out)"
    using len by (simp add: decode_lists_def run rbind_def)
  then show ?thesis
    using len whole by (simp add: zs)
qed

lemma decode_lists_unopened:
  assumes zs: "zip sent tags = (s, t) # rest" and t: "\<not> opens_span t"
  shows "\<exists>spans types words. decode_lists sent tags = Inr (spans, types) \<and>
           words \<noteq> [] \<and> concat spans @ words = map fst (zip sent tags) \<and>
           length spans = length types"
proof -
  obtain sent_out tags_out words
    where w: "walk rest ([], [], [s]) = Inr (sent_out, tags_out, words)"
    using walk_returns [of rest "[]" "[]" "[s]"] by (metis prod_cases3)
  have run: "walk (zip sent tags) ([], [], []) = Inr (sent_out, tags_out, words)"
    using w t by (simp add: zs walk_Cons)
  have len: "words \<noteq> [] \<and> length sent_out = length tags_out"
    using walk_open [OF w] by simp
  have whole: "concat sent_out @ words = s # map fst rest"
    using walk_text [OF w] by simp
  have "decode_lists sent tags = Inr (sent_out, tags_out)"
    using len by (simp add: decode_lists_def run rbind_def)
  moreover have "concat sent_out @ words = map fst (zip sent tags)"
    using whole by (simp add: zs)
  ultimately show ?thesis
    using len by blast
qed

lemma decode_lists_returns:
  "\<exists>spans types. decode_lists sent tags = Inr (spans, types) \<and> length spans = length types"
proof (cases "zip sent tags")
  case Nil
  then show ?thesis by (simp add: decode_lists_empty)
next
  case (Cons z rest)
  obtain s t where z: "z = (s, t)" by (cases z)
  show ?thesis
  proof (cases "opens_span t")
    case True
    with decode_lists_opened [OF Cons [unfolded z]] show ?thesis by blast
  next
    case False
    with decode_lists_unopened [OF Cons [unfolded z]] show ?thesis by blast
  qed
qed

lemma decode_lists_types:
  assumes "decode_lists sent tags = Inr (spans, types)"
  shows "types = map recorded_type (filter opens_span (map snd (zip sent tags)))"
proof -
  obtain sent_out tags_out words
    where w: "walk (zip sent tags) ([], [], []) = Inr (sent_out, tags_out, words)"
    using walk_returns [of "zip sent tags" "[]" "[]" "[]"] by (metis prod_cases3)
  have "types = tags_out"
    using assms by (simp add: decode_lists_def w rbind_def)
  then show ?thesis
    using walk_types [OF w] by simp
qed

section \<open>The span decoder: lookups and evaluation\<close>

lemma map_result_total:
  "set xs \<subseteq> dom m \<Longrightarrow> \<exists>ys. map_result (dict_get m) xs = Inr ys"
proof (induction xs)
  case Nil
  show ?case by simp
next
  case (Cons x xs)
  then obtain v ys where "m x = Some v" and ys: "map_result (dict_get m) xs = Inr ys"
    by auto
  then have "dict_get m x = Inr v"
    by (simp add: dict_get_def)
  then show ?case
    using ys by (simp add: rbind_def)
qed

lemma map_result_length:
  "map_result f xs = Inr ys \<Longrightarrow> length ys = length xs"
proof (induction xs arbitrary: ys)
  case Nil
  then show ?case by simp
next
  case (Cons x xs)
  then show ?case
    by (auto simp: rbind_def split: sum.splits)
qed

lemma decode_example_eq:
  assumes "list_get input_words idx = Inr w" and "list_get decodes idx = Inr d"
    and "frame_tags id2label d end = Inr tags"
  shows "decode_example input_words id2label decodes idx end =
         decode_lists (concat (tokens w)) tags"
  using assms by (simp add: decode_example_def rbind_def)

lemma I_not_opens: "startswith t (ustr ''I-'') \<Longrightarrow> \<not> opens_span t"
  by (auto simp: opens_span_def ustr_B ustr_I ustr_O startswith2)

lemma well_formed_first_opens:
  "well_formed_bio (t # ts) \<Longrightarrow> opens_span t"
  by (auto simp: well_formed_bio_def opens_span_def ustr_B ustr_I ustr_O startswith2)

lemmas decode_eval =
  decode_example_def frame_tags_def decode_lists_def list_get_def dict_get_def rbind_def
  py_slice_def slice_bound_def msra_id2label_def beijing_def walk_Cons opens_span_def
  recorded_type_def startswith_def ustr_def well_formed_bio_def

section \<open>The span decoder: the claims\<close>

text \<open>
  Claim C3. For every example in range and every sequence of tag ids that
  \<open>id2label\<close> knows, the decoder returns a span list and a type list of equal length.
  The lengths agree after the fix-up on every input, so no inconsistency is left to
  signal, and the source signals none.
\<close>

theorem spans_and_types_same_length:
  assumes "idx < length input_words" and "idx < length decodes"
    and "set (py_slice (decodes ! idx) 1 end) \<subseteq> dom id2label"
  shows "\<exists>spans types.
           decode_example input_words id2label decodes idx end = Inr (spans, types) \<and>
           length spans = length types"
proof -
  obtain tags where "frame_tags id2label (decodes ! idx) end = Inr tags"
    using map_result_total [OF assms(3)] by (auto simp: frame_tags_def)
  then have "decode_example input_words id2label decodes idx end =
      decode_lists (concat (tokens (input_words ! idx))) tags"
    using assms(1,2) by (simp add: decode_example_eq list_get_def)
  then show ?thesis
    using decode_lists_returns [of "concat (tokens (input_words ! idx))" tags] by simp
qed

theorem spans_and_types_same_length_witness:
  "(0::nat) < length [beijing] \<and> (0::nat) < length [[6, 4, 5, 6, 6, 6, 6 :: int]] \<and>
   decode_example [beijing] msra_id2label [[6, 4, 5, 6, 6, 6, 6]] 0 7 =
     Inr ([[21271, 20140], [27426], [36814], [20320]],
          [ustr ''LOC'', ustr ''O'', ustr ''O'', ustr ''O''])"
  using spans_and_types_same_length [of 0 "[beijing]" "[[6, 4, 5, 6, 6, 6, 6]]" 7 msra_id2label]
  by (simp add: decode_eval)

text \<open>
  Claim C1, amended. For every example whose tag sequence is a well-formed BIO sequence
  and has at least as many tags as the source text has characters, the concatenation
  of the returned spans is the source text.
\<close>

theorem spans_concat_to_source:
  assumes "list_get input_words idx = Inr w" and "list_get decodes idx = Inr d"
    and "frame_tags id2label d end = Inr tags"
    and "well_formed_bio tags"
    and "length (concat (tokens w)) \<le> length tags"
  shows "\<exists>spans types.
           decode_example input_words id2label decodes idx end = Inr (spans, types) \<and>
           concat spans = concat (tokens w)"
proof (cases "zip (concat (tokens w)) tags")
  case Nil
  then have "concat (tokens w) = []"
    using assms(5) by (cases "concat (tokens w)"; cases tags) auto
  then show ?thesis
    using decode_lists_empty [OF Nil] by (simp add: decode_example_eq [OF assms(1-3)])
next
  case (Cons z rest)
  obtain s t where z: "z = (s, t)" by (cases z)
  have "opens_span t"
    using Cons assms(4) unfolding z
    by (cases "concat (tokens w)"; cases tags) (auto dest: well_formed_first_opens)
  from decode_lists_opened [OF Cons [unfolded z] this]
  obtain spans types
    where "decode_lists (concat (tokens w)) tags = Inr (spans, types)"
      and "concat spans = map fst (zip (concat (tokens w)) tags)"
    by blast
  then show ?thesis
    using assms(5) by (simp add: decode_example_eq [OF assms(1-3)] map_fst_zip_take)
qed

theorem spans_concat_to_source_witness:
  "frame_tags msra_id2label [6, 4, 5, 6, 6, 6, 6] 7 =
     Inr [ustr ''B-LOC'', ustr ''I-LOC'', ustr ''O'', ustr ''O'', ustr ''O'', ustr ''O''] \<and>
   well_formed_bio
     [ustr ''B-LOC'', ustr ''I-LOC'', ustr ''O'', ustr ''O'', ustr ''O'', ustr ''O''] \<and>
   (\<exists>spans types.
      decode_example [beijing] msra_id2label [[6, 4, 5, 6, 6, 6, 6]] 0 7 = Inr (spans, types) \<and>
      concat spans = [21271, 20140, 27426, 36814, 20320])"
  using spans_concat_to_source [of "[beijing]" 0 beijing "[[6, 4, 5, 6, 6, 6, 6]]"
      "[6, 4, 5, 6, 6, 6, 6]" msra_id2label 7
      "[ustr ''B-LOC'', ustr ''I-LOC'', ustr ''O'', ustr ''O'', ustr ''O'', ustr ''O'']"]
  by (simp add: decode_eval)

text \<open>
  With fewer tags than characters the statement fails: \<open>zip\<close> stops at the shorter
  sequence. Valid length 5 leaves four tags for the five characters, and the last
  character is in no span.
\<close>

theorem spans_concat_to_source_counterexample:
  "frame_tags msra_id2label [6, 4, 5, 6, 6, 6, 6] 5 =
     Inr [ustr ''B-LOC'', ustr ''I-LOC'', ustr ''O'', ustr ''O''] \<and>
   well_formed_bio [ustr ''B-LOC'', ustr ''I-LOC'', ustr ''O'', ustr ''O''] \<and>
   decode_example [beijing] msra_id2label [[6, 4, 5, 6, 6, 6, 6]] 0 5 =
     Inr ([[21271, 20140], [27426], [36814]], [ustr ''LOC'', ustr ''O'', ustr ''O'']) \<and>
   concat [[21271, 20140], [27426], [36814]] \<noteq> concat (tokens beijing)"
  by (simp add: decode_eval)

text \<open>
  Claim C6, amended. The types list holds, in order, one entry for each walked tag that
  is \<open>O\<close> or starts with \<open>B-\<close>. For \<open>O\<close> the entry is the string \<open>O\<close>. For a tag that
  starts with \<open>B-\<close> it is what follows \<open>B-\<close> up to the next hyphen, which is the
  whole suffix only when the suffix has no hyphen.
\<close>

theorem recorded_types:
  assumes "decode_lists sent tags = Inr (spans, types)"
  shows "types = map recorded_type (filter opens_span (take (length sent) tags)) \<and>
         recorded_type (ustr ''O'') = ustr ''O'' \<and>
         recorded_type (ustr ''B-'' @ r) = takeWhile (\<lambda>c. c \<noteq> of_char CHR ''-'') r"
proof -
  have "map snd (zip sent tags) = take (length sent) tags"
    by (simp add: map_snd_zip_take min_def)
  then show ?thesis
    using decode_lists_types [OF assms] O_not_B
    by (simp add: recorded_type_def startswith_def ustr_def)
qed

theorem recorded_types_witness:
  "decode_lists [21271, 20140, 27426] [ustr ''B-PER-X'', ustr ''I-PER-X'', ustr ''O''] =
     Inr ([[21271, 20140], [27426]], [ustr ''PER'', ustr ''O''])"
  using recorded_types [of "[21271, 20140, 27426]"
      "[ustr ''B-PER-X'', ustr ''I-PER-X'', ustr ''O'']"
      "[[21271, 20140], [27426]]" "[ustr ''PER'', ustr ''O'']"]
  by (simp add: decode_eval)

text \<open>
  The type recorded for \<open>B-PER-X\<close> is \<open>PER\<close>, not \<open>PER-X\<close>: the source takes element 1
  of \<open>t.split('-')\<close>.
\<close>

theorem recorded_types_counterexample:
  "decode_lists [21271] [ustr ''B-PER-X''] = Inr ([[21271]], [ustr ''PER'']) \<and>
   ustr ''PER'' \<noteq> ustr ''PER-X''"
  by (simp add: decode_eval)

text \<open>
  Claim C7. When the first tag starts with \<open>I-\<close> and the text is not empty, the first
  step takes the continuation branch from the empty accumulator, the accumulator that
  is open at the end of the loop is never appended, and the spans concatenate to a
  proper prefix of the source text.
\<close>

theorem leading_I_drops_text:
  assumes "sent = c # cs" and "tags = t # ts" and "startswith t (ustr ''I-'')"
  shows "walk [(c, t)] ([], [], []) = Inr ([], [], [c]) \<and>
         (\<exists>spans types dropped.
            decode_lists sent tags = Inr (spans, types) \<and> dropped \<noteq> [] \<and>
            sent = concat spans @ dropped \<and> concat spans \<noteq> sent)"
proof -
  have t: "\<not> opens_span t"
    using assms(3) by (rule I_not_opens)
  have z: "zip sent tags = (c, t) # zip cs ts"
    by (simp add: assms)
  from decode_lists_unopened [OF z t]
  obtain spans types words
    where d: "decode_lists sent tags = Inr (spans, types)" and w: "words \<noteq> []"
      and c: "concat spans @ words = map fst (zip sent tags)"
    by blast
  have "sent = map fst (zip sent tags) @ drop (min (length sent) (length tags)) sent"
    by (simp add: map_fst_zip_take)
  then have "sent = (concat spans @ words) @ drop (min (length sent) (length tags)) sent"
    by (simp only: c)
  then have "sent = concat spans @ (words @ drop (min (length sent) (length tags)) sent)"
    by (simp only: append_assoc)
  moreover have "words @ drop (min (length sent) (length tags)) sent \<noteq> []"
    using w by simp
  ultimately have "\<exists>dropped. dropped \<noteq> [] \<and> sent = concat spans @ dropped \<and> concat spans \<noteq> sent"
    by (metis append_self_conv)
  then show ?thesis
    using d t by (auto simp: walk_Cons)
qed

theorem leading_I_drops_text_witness:
  "startswith (ustr ''I-LOC'') (ustr ''I-'') \<and>
   decode_lists [21271, 20140] [ustr ''I-LOC'', ustr ''O''] = Inr ([[21271]], [ustr ''O'']) \<and>
   concat [[21271]] \<noteq> [21271, 20140]"
  using leading_I_drops_text [of "[21271, 20140]" 21271 "[20140]"
      "[ustr ''I-LOC'', ustr ''O'']" "ustr ''I-LOC''" "[ustr ''O'']"]
  by (simp add: decode_eval)

lemma decode_lists_lockstep:
  "decode_lists sent tags =
   decode_lists (take (min (length sent) (length tags)) sent)
     (take (min (length sent) (length tags)) tags)"
proof -
  have "take (min (length sent) (length tags)) (zip sent tags) = zip sent tags"
    by simp
  then have "zip (take (min (length sent) (length tags)) sent)
      (take (min (length sent) (length tags)) tags) = zip sent tags"
    by (simp only: take_zip)
  then show ?thesis
    by (simp only: decode_lists_def)
qed

lemma py_slice_frame_length:
  "0 \<le> end \<Longrightarrow> end \<le> int (length d) \<Longrightarrow> length (py_slice d 1 end) = nat (end - 1)"
  by (simp add: py_slice_def slice_bound_def)

lemma decode_lists_prefix:
  "\<exists>spans types. decode_lists sent tags = Inr (spans, types) \<and>
     prefix (concat spans) (take (min (length sent) (length tags)) sent) \<and>
     (min (length sent) (length tags) = 0 \<or> opens_span (hd tags) \<longrightarrow>
      concat spans = take (min (length sent) (length tags)) sent)"
proof (cases "zip sent tags")
  case Nil
  then have "min (length sent) (length tags) = 0"
    by (cases sent; cases tags) auto
  then show ?thesis
    using decode_lists_empty [OF Nil] by simp
next
  case (Cons z rest)
  obtain s t where z: "z = (s, t)" by (cases z)
  have hd: "hd tags = t" and pos: "min (length sent) (length tags) \<noteq> 0"
    using Cons unfolding z by (cases sent; cases tags; auto)+
  show ?thesis
  proof (cases "opens_span t")
    case True
    from decode_lists_opened [OF Cons [unfolded z] True] show ?thesis
      by (auto simp: map_fst_zip_take)
  next
    case False
    from decode_lists_unopened [OF Cons [unfolded z] False]
    obtain spans types words
      where "decode_lists sent tags = Inr (spans, types)"
        and "concat spans @ words = take (min (length sent) (length tags)) sent"
      by (auto simp: map_fst_zip_take)
    then show ?thesis
      using False hd pos by (metis prefixI)
  qed
qed

text \<open>
  Claim C10. In a decoding frame the valid length \<open>end\<close> lies between 0 and the number
  of decoded ids, and the sliced tag sequence has \<open>end - 1\<close> entries. The walk is in
  lockstep over \<open>m = min(len(text), end - 1)\<close> pairs: the result is that of the first
  \<open>m\<close> characters and the first \<open>m\<close> tags, so a character beyond them is in no span
  and a tag beyond the text is ignored. The spans concatenate to a prefix of the first
  \<open>m\<close> characters, and to all of them when the first tag opens a span.
\<close>

theorem lockstep_walk:
  assumes "frame_tags id2label d end = Inr tags"
    and "0 \<le> end" and "end \<le> int (length d)"
    and "m = min (length sent) (nat (end - 1))"
  shows "length tags = nat (end - 1) \<and>
         decode_lists sent tags = decode_lists (take m sent) (take m tags) \<and>
         (\<exists>spans types.
            decode_lists sent tags = Inr (spans, types) \<and>
            prefix (concat spans) (take m sent) \<and>
            (m = 0 \<or> opens_span (hd tags) \<longrightarrow> concat spans = take m sent))"
proof -
  have "length tags = length (py_slice d 1 end)"
    using assms(1) by (simp add: frame_tags_def map_result_length)
  then have len: "length tags = nat (end - 1)"
    using assms(2,3) by (simp add: py_slice_frame_length)
  then have m: "m = min (length sent) (length tags)"
    using assms(4) by simp
  show ?thesis
    unfolding m using len decode_lists_lockstep [of sent tags] decode_lists_prefix [of sent tags]
    by blast
qed

theorem lockstep_walk_witness:
  "frame_tags msra_id2label [6, 4, 5, 6, 6, 6, 6] 4 =
     Inr [ustr ''B-LOC'', ustr ''I-LOC'', ustr ''O''] \<and>
   (0::int) \<le> 4 \<and> (4::int) \<le> int (length [6, 4, 5, 6, 6, 6, 6 :: int]) \<and>
   min (length (concat (tokens beijing))) (nat (4 - 1)) = 3 \<and>
   length [ustr ''B-LOC'', ustr ''I-LOC'', ustr ''O''] = nat (4 - 1) \<and>
   decode_lists (concat (tokens beijing)) [ustr ''B-LOC'', ustr ''I-LOC'', ustr ''O''] =
     decode_lists (take 3 (concat (tokens beijing)))
       (take 3 [ustr ''B-LOC'', ustr ''I-LOC'', ustr ''O'']) \<and>
   decode_lists (concat (tokens beijing)) [ustr ''B-LOC'', ustr ''I-LOC'', ustr ''O''] =
     Inr ([[21271, 20140], [27426]], [ustr ''LOC'', ustr ''O''])"
proof -
  have tags: "frame_tags msra_id2label [6, 4, 5, 6, 6, 6, 6] 4 =
      Inr [ustr ''B-LOC'', ustr ''I-LOC'', ustr ''O'']"
    by (simp add: decode_eval)
  have frame: "(0::int) \<le> 4" "(4::int) \<le> int (length [6, 4, 5, 6, 6, 6, 6 :: int])"
    by simp_all
  have m: "3 = min (length (concat (tokens beijing))) (nat (4 - 1))"
    by (simp add: decode_eval)
  have run: "decode_lists (concat (tokens beijing)) [ustr ''B-LOC'', ustr ''I-LOC'', ustr ''O''] =
      Inr ([[21271, 20140], [27426]], [ustr ''LOC'', ustr ''O''])"
    by (simp add: decode_eval)
  note w = lockstep_walk [OF tags frame m]
  have len: "length [ustr ''B-LOC'', ustr ''I-LOC'', ustr ''O''] = nat (4 - 1)"
    using w by (rule conjunct1)
  have cut: "decode_lists (concat (tokens beijing)) [ustr ''B-LOC'', ustr ''I-LOC'', ustr ''O''] =
      decode_lists (take 3 (concat (tokens beijing)))
        (take 3 [ustr ''B-LOC'', ustr ''I-LOC'', ustr ''O''])"
    using w by blast
  show ?thesis
    using tags frame m [symmetric] len cut run by blast
qed

text \<open>
  Claim C5, amended. For the five characters with decoded ids
  \<open>[O, B-LOC, I-LOC, O, O, O]\<close>, the first being the boundary position, and valid
  length 6, the slice \<open>[1:6]\<close> holds the five tags and the decoder returns the four
  pairs of the scenario, rendered and joined by \<open>parse_decodes\<close>.
\<close>

theorem beijing_scenario:
  "parse_decodes str_of_pair [beijing] msra_id2label [[[6, 4, 5, 6, 6, 6]]] [[6]] =
     Inr [concat (map str_of_pair
       [([21271, 20140], ustr ''LOC''), ([27426], ustr ''O''),
        ([36814], ustr ''O''), ([20320], ustr ''O'')])] \<and>
   frame_tags msra_id2label [6, 4, 5, 6, 6, 6] 6 =
     Inr [ustr ''B-LOC'', ustr ''I-LOC'', ustr ''O'', ustr ''O'', ustr ''O''] \<and>
   parse_loop [beijing] msra_id2label [[6, 4, 5, 6, 6, 6]] 0 [6] =
     Inr [[([21271, 20140], ustr ''LOC''), ([27426], ustr ''O''),
           ([36814], ustr ''O''), ([20320], ustr ''O'')]]"
  by (simp add: parse_decodes_def decode_eval)

text \<open>
  With valid length 5 the slice \<open>[1:5]\<close> holds four tags, and the decoder returns three
  pairs: the last character is lost. When the five tag ids are the whole decoded
  sequence, without a boundary position, the slice starts at \<open>I-LOC\<close> and three pairs of
  type \<open>O\<close> are returned.
\<close>

theorem beijing_scenario_counterexample:
  "frame_tags msra_id2label [6, 4, 5, 6, 6, 6] 5 =
     Inr [ustr ''B-LOC'', ustr ''I-LOC'', ustr ''O'', ustr ''O''] \<and>
   parse_loop [beijing] msra_id2label [[6, 4, 5, 6, 6, 6]] 0 [5] =
     Inr [[([21271, 20140], ustr ''LOC''), ([27426], ustr ''O''), ([36814], ustr ''O'')]] \<and>
   parse_loop [beijing] msra_id2label [[6, 4, 5, 6, 6, 6]] 0 [5] \<noteq>
     Inr [[([21271, 20140], ustr ''LOC''), ([27426], ustr ''O''),
           ([36814], ustr ''O''), ([20320], ustr ''O'')]] \<and>
   parse_loop [beijing] msra_id2label [[4, 5, 6, 6, 6]] 0 [5] =
     Inr [[([21271], ustr ''O''), ([20140], ustr ''O''), ([27426], ustr ''O'')]]"
  by (simp add: decode_eval)

section \<open>Determinism\<close>

text \<open>
  On the store, a run changes nothing that was there before it: every write goes to a
  list that the run itself has made. The lemmas below give the store after a run and
  tie each function on the store to the function on values.
\<close>

lemma align_store_result:
  assumes run: "tokenize_and_align_labels_store st ex tokenizer no_entity_id max_seq_len =
      ((enc, out), st')"
  shows "enc = tokenizer (strs st ! tokens_at ex) max_seq_len \<and>
         ints st' ! out =
           align_labels (ints st ! labels_at ex) (length (input_ids enc)) no_entity_id \<and>
         out < length (ints st') \<and> length (ints st) \<le> out \<and>
         prefix (ints st) (ints st') \<and> strs st' = strs st"
proof (cases "int (length (input_ids (tokenizer (strs st ! tokens_at ex) max_seq_len))) - 2
    < int (length (ints st ! labels_at ex))")
  case True
  then show ?thesis
    using run
    by (auto simp: tokenize_and_align_labels_store_def new_ints_def extend_ints_def
        align_labels_def Let_def nth_append prefix_def)
next
  case False
  then show ?thesis
    using run
    by (auto simp: tokenize_and_align_labels_store_def new_ints_def extend_ints_def
        align_labels_def Let_def nth_append prefix_def)
qed

lemma prefix_nth_same: "prefix xs ys \<Longrightarrow> a < length xs \<Longrightarrow> ys ! a = xs ! a"
  by (auto simp: prefix_def nth_append)

lemma align_store_two_runs:
  assumes "tokens_at ex < length (strs st)" and "labels_at ex < length (ints st)"
    and r1: "tokenize_and_align_labels_store st ex tokenizer no_entity_id max_seq_len =
      ((enc1, out1), st1)"
    and r2: "tokenize_and_align_labels_store st1 ex tokenizer no_entity_id max_seq_len =
      ((enc2, out2), st2)"
  shows "enc2 = enc1 \<and> ints st2 ! out2 = ints st2 ! out1 \<and>
         ints st2 ! out1 = ints st1 ! out1 \<and> example_of st1 ex = example_of st ex"
proof -
  note a = align_store_result [OF r1] and b = align_store_result [OF r2]
  have same: "ints st1 ! labels_at ex = ints st ! labels_at ex"
    using a assms(2) by (simp add: prefix_nth_same)
  have enc: "enc2 = enc1"
    using a b by simp
  have "prefix (ints st1) (ints st2)" and "out1 < length (ints st1)"
    using a b by simp_all
  then have keep: "ints st2 ! out1 = ints st1 ! out1"
    by (rule prefix_nth_same)
  have "ints st2 ! out2 = ints st1 ! out1"
    using a b same enc by simp
  then show ?thesis
    using a same enc keep by (simp add: example_of_def)
qed

lemma walk_store_Cons:
  "walk_store ((s, t) # rest) sent_out tags_out words st =
     (if opens_span t
      then walk_store rest sent_out tags_out [s]
             (append_strs (if words = [] then st else append_strs st sent_out words)
                tags_out (recorded_type t))
      else walk_store rest sent_out tags_out (words @ [s]) st)"
proof (cases "startswith t (ustr ''B-'')")
  case True
  then show ?thesis
    using b_tag_type [OF True] by (simp add: opens_span_def sbind_def)
next
  case False
  then show ?thesis
    using O_not_B by (auto simp: opens_span_def recorded_type_O)
qed

declare walk_store.simps(2) [simp del]

lemma update_twice:
  "(xs[b := y])[a := u, b := v] = xs[a := u, b := v]"
  "(xs[a := x, b := y])[a := u, b := v] = xs[a := u, b := v]"
proof -
  show one: "(xs[b := y])[a := u, b := v] = xs[a := u, b := v]" for xs :: "'a list"
    by (cases "a = b") (simp_all add: list_update_swap [of b a])
  show "(xs[a := x, b := y])[a := u, b := v] = xs[a := u, b := v]"
    by (simp add: one)
qed

lemma walk_store_refines:
  assumes "sent_out < length (strs st)" and "tags_out < length (strs st)"
    and "sent_out \<noteq> tags_out"
    and "walk zs (strs st ! sent_out, strs st ! tags_out, words) = Inr (spans, types, rest_words)"
  shows "walk_store zs sent_out tags_out words st =
         (Inr rest_words, st\<lparr>strs := (strs st)[sent_out := spans, tags_out := types]\<rparr>)"
  using assms
proof (induction zs arbitrary: st words)
  case Nil
  then show ?case by auto
next
  case (Cons z zs)
  obtain s t where z: "z = (s, t)" by (cases z)
  show ?case
  proof (cases "opens_span t")
    case True
    define st1 where "st1 = append_strs (if words = [] then st else append_strs st sent_out words)
        tags_out (recorded_type t)"
    have len: "sent_out < length (strs st1)" "tags_out < length (strs st1)"
      using Cons.prems(1,2) by (simp_all add: st1_def append_strs_def)
    have at_s: "strs st1 ! sent_out =
        (if words = [] then strs st ! sent_out else strs st ! sent_out @ [words])"
      using Cons.prems(1,2,3) by (simp add: st1_def append_strs_def)
    have at_t: "strs st1 ! tags_out = strs st ! tags_out @ [recorded_type t]"
      using Cons.prems(1,2,3) by (simp add: st1_def append_strs_def)
    have "walk zs (strs st1 ! sent_out, strs st1 ! tags_out, [s]) = Inr (spans, types, rest_words)"
      using Cons.prems(4) True unfolding z walk_Cons at_s at_t by simp
    from Cons.IH [OF len Cons.prems(3) this]
    have "walk_store zs sent_out tags_out [s] st1 =
        (Inr rest_words, st1\<lparr>strs := (strs st1)[sent_out := spans, tags_out := types]\<rparr>)" .
    moreover have "st1\<lparr>strs := (strs st1)[sent_out := spans, tags_out := types]\<rparr> =
        st\<lparr>strs := (strs st)[sent_out := spans, tags_out := types]\<rparr>"
      by (simp add: st1_def append_strs_def update_twice)
    ultimately show ?thesis
      using True by (simp add: z walk_store_Cons st1_def)
  next
    case False
    then have "walk zs (strs st ! sent_out, strs st ! tags_out, words @ [s]) =
        Inr (spans, types, rest_words)"
      using Cons.prems(4) unfolding z walk_Cons by simp
    from Cons.IH [OF Cons.prems(1,2,3) this] show ?thesis
      using False by (simp add: z walk_store_Cons)
  qed
qed

lemma sbind_simps:
  "sbind (Inl e, st) f = (Inl e, st)"
  "sbind (Inr x, st) f = f x st"
  by (simp_all add: sbind_def)

lemma decode_lists_store:
  assumes "walk (zip sent tags) ([], [], []) = Inr (spans, types, words)"
  shows "sbind (walk_store (zip sent tags) (length (strs st)) (Suc (length (strs st))) []
                  (st\<lparr>strs := strs st @ [[], []]\<rparr>))
           (\<lambda>words st3.
              (Inr (length (strs st), Suc (length (strs st))),
               if length (strs st3 ! length (strs st)) < length (strs st3 ! Suc (length (strs st)))
               then append_strs st3 (length (strs st)) words else st3)) =
         (Inr (length (strs st), Suc (length (strs st))),
          st\<lparr>strs := strs st @
            [if length spans < length types then spans @ [words] else spans, types]\<rparr>)"
proof -
  define st2 where "st2 = st\<lparr>strs := strs st @ [[], []]\<rparr>"
  have at: "strs st2 ! length (strs st) = []" "strs st2 ! Suc (length (strs st)) = []"
    by (simp_all add: st2_def nth_append)
  have "walk_store (zip sent tags) (length (strs st)) (Suc (length (strs st))) [] st2 =
      (Inr words, st2\<lparr>strs := (strs st2)[length (strs st) := spans,
         Suc (length (strs st)) := types]\<rparr>)"
    by (rule walk_store_refines) (simp_all add: at assms, simp_all add: st2_def)
  moreover have "st2\<lparr>strs := (strs st2)[length (strs st) := spans,
      Suc (length (strs st)) := types]\<rparr> = st\<lparr>strs := strs st @ [spans, types]\<rparr>"
    by (simp add: st2_def list_update_append)
  ultimately show ?thesis
    by (simp add: sbind_def st2_def append_strs_def nth_append list_update_append)
qed

lemma decode_example_store_eq:
  "decode_example_store input_words id2label decodes idx end st =
     (case decode_example (map (example_of st) input_words) id2label
             (map ((!) (ints st)) decodes) idx end of
        Inl e \<Rightarrow> (Inl e, st)
      | Inr (spans, types) \<Rightarrow>
          (Inr (length (strs st), Suc (length (strs st))),
           st\<lparr>strs := strs st @ [spans, types]\<rparr>))"
proof (cases "idx < length input_words \<and> idx < length decodes")
  case False
  then show ?thesis
    by (auto simp: decode_example_store_def decode_example_def list_get_def sbind_simps
        rbind_def)
next
  case True
  show ?thesis
  proof (cases "frame_tags id2label (ints st ! (decodes ! idx)) end")
    case (Inl e)
    then show ?thesis
      using True
      by (simp add: decode_example_store_def decode_example_def list_get_def sbind_simps
          rbind_def example_of_def)
  next
    case (Inr tags)
    obtain spans types words
      where w: "walk (zip (concat (strs st ! tokens_at (input_words ! idx))) tags) ([], [], []) =
          Inr (spans, types, words)"
      using walk_returns [of _ "[]" "[]" "[]"] by (metis prod_cases3)
    have value_level: "decode_example (map (example_of st) input_words) id2label
        (map ((!) (ints st)) decodes) idx end =
        Inr (if length spans < length types then spans @ [words] else spans, types)"
      using True Inr w
      by (simp add: decode_example_def list_get_def rbind_def decode_lists_def example_of_def)
    have "decode_example_store input_words id2label decodes idx end st =
        (Inr (length (strs st), Suc (length (strs st))),
         st\<lparr>strs := strs st @
           [if length spans < length types then spans @ [words] else spans, types]\<rparr>)"
      using True Inr decode_lists_store [OF w, of st]
      by (simp add: decode_example_store_def list_get_def sbind_simps new_strs_def)
    then show ?thesis
      by (simp add: value_level)
  qed
qed

lemma parse_loop_store_refines:
  assumes "\<forall>w \<in> set input_words. tokens_at w < outputs" and "outputs < length (strs st)"
  shows "\<exists>st'. parse_loop_store str_of_pair input_words id2label decodes outputs idx lens st =
           (map_sum id (\<lambda>outs. ())
              (parse_loop (map (example_of st) input_words) id2label
                 (map ((!) (ints st)) decodes) idx lens), st') \<and>
         ints st' = ints st \<and> take outputs (strs st') = take outputs (strs st) \<and>
         length (strs st) \<le> length (strs st') \<and>
         (\<forall>outs. parse_loop (map (example_of st) input_words) id2label
                   (map ((!) (ints st)) decodes) idx lens = Inr outs \<longrightarrow>
            strs st' ! outputs =
              strs st ! outputs @ map (\<lambda>pairs. concat (map str_of_pair pairs)) outs)"
  using assms
proof (induction lens arbitrary: st idx)
  case Nil
  show ?case by simp
next
  case (Cons e lens)
  let ?ex = "decode_example (map (example_of st) input_words) id2label
      (map ((!) (ints st)) decodes) idx e"
  show ?case
  proof (cases ?ex)
    case (Inl err)
    then show ?thesis
      by (simp add: decode_example_store_eq sbind_simps rbind_def)
  next
    case (Inr p)
    obtain spans types where p: "p = (spans, types)" by (cases p)
    define x where "x = concat (map str_of_pair (zip spans types))"
    define st1 where "st1 = append_strs (st\<lparr>strs := strs st @ [spans, types]\<rparr>) outputs x"
    have strs1: "strs st1 = (strs st @ [spans, types])[outputs := strs st ! outputs @ [x]]"
      using Cons.prems(2) by (simp add: st1_def append_strs_def nth_append)
    have ints1: "ints st1 = ints st"
      by (simp add: st1_def append_strs_def)
    have out1: "outputs < length (strs st1)"
      using Cons.prems(2) by (simp add: strs1)
    have "example_of st1 w = example_of st w" if "w \<in> set input_words" for w
      using that Cons.prems by (auto simp: example_of_def strs1 ints1 nth_append)
    then have exs: "map (example_of st1) input_words = map (example_of st) input_words"
      by simp
    from Cons.IH [OF Cons.prems(1) out1, of "Suc idx"]
    obtain st' where
      run: "parse_loop_store str_of_pair input_words id2label decodes outputs (Suc idx) lens st1 =
          (map_sum id (\<lambda>outs. ())
             (parse_loop (map (example_of st) input_words) id2label
                (map ((!) (ints st)) decodes) (Suc idx) lens), st')"
      and fr: "ints st' = ints st" "take outputs (strs st') = take outputs (strs st1)"
        "length (strs st1) \<le> length (strs st')"
      and out: "\<forall>outs. parse_loop (map (example_of st) input_words) id2label
                   (map ((!) (ints st)) decodes) (Suc idx) lens = Inr outs \<longrightarrow>
            strs st' ! outputs =
              strs st1 ! outputs @ map (\<lambda>pairs. concat (map str_of_pair pairs)) outs"
      unfolding exs ints1 by blast
    have step: "parse_loop_store str_of_pair input_words id2label decodes outputs idx (e # lens) st =
        parse_loop_store str_of_pair input_words id2label decodes outputs (Suc idx) lens st1"
      using Inr by (simp add: decode_example_store_eq sbind_simps p st1_def x_def nth_append)
    have tk: "take outputs (strs st1) = take outputs (strs st)"
      using Cons.prems(2) by (simp add: strs1)
    have at: "strs st1 ! outputs = strs st ! outputs @ [x]"
      using Cons.prems(2) by (simp add: strs1)
    have len: "length (strs st) \<le> length (strs st1)"
      by (simp add: strs1)
    show ?thesis
    proof (cases "parse_loop (map (example_of st) input_words) id2label
        (map ((!) (ints st)) decodes) (Suc idx) lens")
      case (Inl err)
      then show ?thesis
        unfolding step using Inr run fr tk len by (simp add: rbind_def p)
    next
      case tail: (Inr outs)
      then show ?thesis
        unfolding step using Inr run fr tk len out at by (simp add: rbind_def p x_def)
    qed
  qed
qed

lemma parse_decodes_store_refines:
  assumes "\<forall>w \<in> set input_words. tokens_at w < length (strs st)"
  shows "\<exists>st'. parse_decodes_store str_of_pair input_words id2label decodes lens st =
           (map_sum id (\<lambda>res. length (strs st))
              (parse_decodes str_of_pair (map (example_of st) input_words) id2label
                 (map (map ((!) (ints st))) decodes) lens), st') \<and>
         ints st' = ints st \<and> prefix (strs st) (strs st') \<and>
         length (strs st) < length (strs st') \<and>
         (\<forall>res. parse_decodes str_of_pair (map (example_of st) input_words) id2label
                  (map (map ((!) (ints st))) decodes) lens = Inr res \<longrightarrow>
            strs st' ! length (strs st) = res)"
proof -
  define st1 where "st1 = st\<lparr>strs := strs st @ [[]]\<rparr>"
  have "example_of st1 w = example_of st w" if "w \<in> set input_words" for w
    using that assms by (auto simp: example_of_def st1_def nth_append)
  then have exs: "map (example_of st1) input_words = map (example_of st) input_words"
    by simp
  have ints1: "ints st1 = ints st"
    by (simp add: st1_def)
  have out1: "length (strs st) < length (strs st1)"
    by (simp add: st1_def)
  let ?loop = "parse_loop (map (example_of st) input_words) id2label
      (map ((!) (ints st)) (concat decodes)) 0 (concat lens)"
  from parse_loop_store_refines [OF assms out1, of str_of_pair id2label "concat decodes" 0
      "concat lens"]
  obtain st' where
    run: "parse_loop_store str_of_pair input_words id2label (concat decodes) (length (strs st)) 0
        (concat lens) st1 = (map_sum id (\<lambda>outs. ()) ?loop, st')"
    and fr: "ints st' = ints st" "take (length (strs st)) (strs st') = take (length (strs st)) (strs st1)"
      "length (strs st1) \<le> length (strs st')"
    and out: "\<forall>outs. ?loop = Inr outs \<longrightarrow>
        strs st' ! length (strs st) =
        strs st1 ! length (strs st) @ map (\<lambda>pairs. concat (map str_of_pair pairs)) outs"
    unfolding exs ints1 by blast
  have "take (length (strs st)) (strs st') = strs st"
    using fr(2) by (simp add: st1_def)
  then have pre: "prefix (strs st) (strs st')"
    by (metis take_is_prefix)
  have value_level: "parse_decodes str_of_pair (map (example_of st) input_words) id2label
      (map (map ((!) (ints st))) decodes) lens =
      rbind ?loop (\<lambda>outputs. Inr (map (\<lambda>pairs. concat (map str_of_pair pairs)) outputs))"
    by (simp add: parse_decodes_def map_concat)
  have store_level: "parse_decodes_store str_of_pair input_words id2label decodes lens st =
      sbind (map_sum id (\<lambda>outs. ()) ?loop, st') (\<lambda>u st2. (Inr (length (strs st)), st2))"
    using run by (simp add: parse_decodes_store_def new_strs_def st1_def)
  show ?thesis
  proof (cases ?loop)
    case (Inl err)
    then show ?thesis
      using fr pre out1 by (simp add: store_level value_level sbind_simps rbind_def)
  next
    case (Inr outs)
    then show ?thesis
      using fr pre out1 out
      by (simp add: store_level value_level sbind_simps rbind_def st1_def)
  qed
qed

lemma parse_decodes_store_two_runs:
  assumes valid: "\<forall>w \<in> set input_words. tokens_at w < length (strs st)"
    and r1: "parse_decodes_store str_of_pair input_words id2label decodes lens st = (r1, st1)"
    and r2: "parse_decodes_store str_of_pair input_words id2label decodes lens st1 = (r2, st2)"
  shows "ints st1 = ints st \<and> prefix (strs st) (strs st1) \<and>
         (case r1 of
            Inl e \<Rightarrow> r2 = Inl e
          | Inr out1 \<Rightarrow> (case r2 of
               Inl e \<Rightarrow> False
             | Inr out2 \<Rightarrow> strs st2 ! out2 = strs st2 ! out1 \<and>
                            strs st2 ! out1 = strs st1 ! out1))"
proof -
  let ?v = "parse_decodes str_of_pair (map (example_of st) input_words) id2label
      (map (map ((!) (ints st))) decodes) lens"
  from parse_decodes_store_refines [OF valid, of str_of_pair id2label decodes lens] r1
  have a: "r1 = map_sum id (\<lambda>res. length (strs st)) ?v" "ints st1 = ints st"
    "prefix (strs st) (strs st1)" "length (strs st) < length (strs st1)"
    "\<forall>res. ?v = Inr res \<longrightarrow> strs st1 ! length (strs st) = res"
    by auto
  have valid1: "\<forall>w \<in> set input_words. tokens_at w < length (strs st1)"
    using valid a(4) by auto
  have "example_of st1 w = example_of st w" if "w \<in> set input_words" for w
    using that valid a(2,3) by (simp add: example_of_def prefix_nth_same)
  then have exs: "map (example_of st1) input_words = map (example_of st) input_words"
    by simp
  from parse_decodes_store_refines [OF valid1, of str_of_pair id2label decodes lens] r2
  have b: "r2 = map_sum id (\<lambda>res. length (strs st1)) ?v"
    "prefix (strs st1) (strs st2)"
    "\<forall>res. ?v = Inr res \<longrightarrow> strs st2 ! length (strs st1) = res"
    unfolding exs a(2) by auto
  show ?thesis
  proof (cases ?v)
    case (Inl err)
    then show ?thesis
      using a b by simp
  next
    case (Inr res)
    have "strs st2 ! length (strs st) = strs st1 ! length (strs st)"
      using b(2) a(4) by (rule prefix_nth_same)
    then show ?thesis
      using Inr a b by simp
  qed
qed

text \<open>
  Claim C9. A second run, on the same arguments and on the store that the first run
  has left, returns what the first returned: the same encoding and a label list with
  the same entries for the aligner, the same exception or a list with the same
  rendered strings for the decoder. The first run leaves the lists of its arguments as
  they were, and the second leaves the result of the first as it was. The tokenizer
  and the rendering of a pair are functions of the values they are given.
\<close>

theorem two_runs_equal:
  assumes "tokens_at ex < length (strs st)" and "labels_at ex < length (ints st)"
    and "tokenize_and_align_labels_store st ex tokenizer no_entity_id max_seq_len =
           ((enc1, out1), st1)"
    and "tokenize_and_align_labels_store st1 ex tokenizer no_entity_id max_seq_len =
           ((enc2, out2), st2)"
    and "\<forall>w \<in> set input_words. tokens_at w < length (strs sd)"
    and "parse_decodes_store str_of_pair input_words id2label decodes lens sd = (r1, sd1)"
    and "parse_decodes_store str_of_pair input_words id2label decodes lens sd1 = (r2, sd2)"
  shows "(enc2 = enc1 \<and> ints st2 ! out2 = ints st2 ! out1 \<and>
          ints st2 ! out1 = ints st1 ! out1 \<and> example_of st1 ex = example_of st ex) \<and>
         (ints sd1 = ints sd \<and> prefix (strs sd) (strs sd1) \<and>
          (case r1 of
             Inl e \<Rightarrow> r2 = Inl e
           | Inr res1 \<Rightarrow> (case r2 of
                Inl e \<Rightarrow> False
              | Inr res2 \<Rightarrow> strs sd2 ! res2 = strs sd2 ! res1 \<and>
                              strs sd2 ! res1 = strs sd1 ! res1)))"
  using align_store_two_runs [OF assms(1-4)] parse_decodes_store_two_runs [OF assms(5-7)]
  by blast

lemmas store_eval =
  tokenize_and_align_labels_store_def parse_decodes_store_def decode_example_store_def
  new_ints_def new_strs_def extend_ints_def append_strs_def sbind_simps walk_store_Cons
  store0_def example0_def fixed_tokenizer_def py_slice_to_def py_repeat_def
  frame_tags_def list_get_def dict_get_def rbind_def py_slice_def slice_bound_def
  msra_id2label_def opens_span_def recorded_type_def startswith_def ustr_def

theorem two_runs_equal_witness:
  "tokenize_and_align_labels_store store0 example0 (fixed_tokenizer 4) 6 512 =
     ((fixed_tokenizer 4 [[21271], [20140]] 512, 2),
      \<lparr> ints = [[6, 4, 5, 6], [0, 1], [6, 0, 1, 6]], strs = [[[21271], [20140]]] \<rparr>) \<and>
   tokenize_and_align_labels_store
     \<lparr> ints = [[6, 4, 5, 6], [0, 1], [6, 0, 1, 6]], strs = [[[21271], [20140]]] \<rparr>
     example0 (fixed_tokenizer 4) 6 512 =
     ((fixed_tokenizer 4 [[21271], [20140]] 512, 3),
      \<lparr> ints = [[6, 4, 5, 6], [0, 1], [6, 0, 1, 6], [6, 0, 1, 6]],
        strs = [[[21271], [20140]]] \<rparr>) \<and>
   parse_decodes_store (\<lambda>p. fst p @ snd p) [example0] msra_id2label [[0]] [[4]] store0 =
     (Inr 1,
      \<lparr> ints = [[6, 4, 5, 6], [0, 1]],
        strs = [[[21271], [20140]], [[21271, 20140, 76, 79, 67]], [[21271, 20140]],
                [[76, 79, 67]]] \<rparr>) \<and>
   parse_decodes_store (\<lambda>p. fst p @ snd p) [example0] msra_id2label [[0]] [[4]]
     \<lparr> ints = [[6, 4, 5, 6], [0, 1]],
       strs = [[[21271], [20140]], [[21271, 20140, 76, 79, 67]], [[21271, 20140]],
               [[76, 79, 67]]] \<rparr> =
     (Inr 4,
      \<lparr> ints = [[6, 4, 5, 6], [0, 1]],
        strs = [[[21271], [20140]], [[21271, 20140, 76, 79, 67]], [[21271, 20140]],
                [[76, 79, 67]], [[21271, 20140, 76, 79, 67]], [[21271, 20140]],
                [[76, 79, 67]]] \<rparr>) \<and>
   ints \<lparr> ints = [[6, 4, 5, 6], [0, 1], [6, 0, 1, 6], [6, 0, 1, 6]],
          strs = [[[21271], [20140]]] \<rparr> ! 3 =
   ints \<lparr> ints = [[6, 4, 5, 6], [0, 1], [6, 0, 1, 6]], strs = [[[21271], [20140]]] \<rparr> ! 2 \<and>
   example_of \<lparr> ints = [[6, 4, 5, 6], [0, 1], [6, 0, 1, 6]], strs = [[[21271], [20140]]] \<rparr>
     example0 = example_of store0 example0"
proof -
  have valid: "tokens_at example0 < length (strs store0)"
    "labels_at example0 < length (ints store0)"
    "\<forall>w \<in> set [example0]. tokens_at w < length (strs store0)"
    by (simp_all add: store0_def example0_def)
  have a1: "tokenize_and_align_labels_store store0 example0 (fixed_tokenizer 4) 6 512 =
     ((fixed_tokenizer 4 [[21271], [20140]] 512, 2),
      \<lparr> ints = [[6, 4, 5, 6], [0, 1], [6, 0, 1, 6]], strs = [[[21271], [20140]]] \<rparr>)"
    by (simp add: store_eval)
  have a2: "tokenize_and_align_labels_store
     \<lparr> ints = [[6, 4, 5, 6], [0, 1], [6, 0, 1, 6]], strs = [[[21271], [20140]]] \<rparr>
     example0 (fixed_tokenizer 4) 6 512 =
     ((fixed_tokenizer 4 [[21271], [20140]] 512, 3),
      \<lparr> ints = [[6, 4, 5, 6], [0, 1], [6, 0, 1, 6], [6, 0, 1, 6]],
        strs = [[[21271], [20140]]] \<rparr>)"
    by (simp add: store_eval)
  have d1: "parse_decodes_store (\<lambda>p. fst p @ snd p) [example0] msra_id2label [[0]] [[4]] store0 =
     (Inr 1,
      \<lparr> ints = [[6, 4, 5, 6], [0, 1]],
        strs = [[[21271], [20140]], [[21271, 20140, 76, 79, 67]], [[21271, 20140]],
                [[76, 79, 67]]] \<rparr>)"
    by (simp add: store_eval)
  have d2: "parse_decodes_store (\<lambda>p. fst p @ snd p) [example0] msra_id2label [[0]] [[4]]
     \<lparr> ints = [[6, 4, 5, 6], [0, 1]],
       strs = [[[21271], [20140]], [[21271, 20140, 76, 79, 67]], [[21271, 20140]],
               [[76, 79, 67]]] \<rparr> =
     (Inr 4,
      \<lparr> ints = [[6, 4, 5, 6], [0, 1]],
        strs = [[[21271], [20140]], [[21271, 20140, 76, 79, 67]], [[21271, 20140]],
                [[76, 79, 67]], [[21271, 20140, 76, 79, 67]], [[21271, 20140]],
                [[76, 79, 67]]] \<rparr>)"
    by (simp add: store_eval)
  note w = two_runs_equal [OF valid(1,2) a1 a2 valid(3) d1 d2]
  have same: "ints \<lparr> ints = [[6, 4, 5, 6], [0, 1], [6, 0, 1, 6], [6, 0, 1, 6]],
          strs = [[[21271], [20140]]] \<rparr> ! 3 =
      ints \<lparr> ints = [[6, 4, 5, 6], [0, 1], [6, 0, 1, 6]], strs = [[[21271], [20140]]] \<rparr> ! 2"
    using w by simp
  have kept: "example_of
      \<lparr> ints = [[6, 4, 5, 6], [0, 1], [6, 0, 1, 6]], strs = [[[21271], [20140]]] \<rparr>
      example0 = example_of store0 example0"
    using w by blast
  show ?thesis
    using a1 a2 d1 d2 same kept by blast
qed

end
